theory Spec2Isabelle
  imports Complex_Main
begin

section \<open>Errors\<close>

text \<open>
  The exceptions the program can raise. \<open>WorldFailure\<close> is the exception class of
  \<^verbatim>\<open>grid.py\<close>, carrying the reason of its message; \<open>IndexError\<close> and
  \<open>TypeError\<close> are those of the Python runtime (indexing a list or a string out of
  range, formatting a tuple with \<^verbatim>\<open>%o\<close>).
\<close>

datatype failure =
    NoContent
  | DifferentLength nat nat nat
  | InvalidChar char nat nat
  | NoInitialState

datatype error = WorldFailure failure | IndexError | TypeError

section \<open>Grid worlds\<close>

definition VALID_CHARS :: "char set" where
  "VALID_CHARS = {CHR ''#'', CHR ''.'', CHR ''@'', CHR ''$'', CHR ''^'', CHR '' ''}"

record world =
  init_state :: "int \<times> int"
  lines :: "string list"

text \<open>
  \<^verbatim>\<open>str.split()\<close> with no argument: the text is cut at every run of whitespace and no
  empty piece is kept. A character is a code point below 256 here; \<open>isspace\<close> lists the
  ones Python counts as whitespace (tab to carriage return, the four separators
  \<open>0x1c\<close> to \<open>0x1f\<close>, the space, \<open>0x85\<close> and \<open>0xa0\<close>).
\<close>

definition isspace :: "char \<Rightarrow> bool" where
  "isspace c = ((of_char c :: nat) \<in> {9, 10, 11, 12, 13, 28, 29, 30, 31, 32, 133, 160})"

fun split_from :: "string \<Rightarrow> string \<Rightarrow> string list" where
  "split_from piece [] = (if piece = [] then [] else [piece])"
| "split_from piece (c # cs) =
     (if isspace c then (if piece = [] then split_from [] cs else piece # split_from [] cs)
      else split_from (piece @ [c]) cs)"

definition str_split :: "string \<Rightarrow> string list" where
  "str_split s = split_from [] s"

text \<open>
  The inner loop of \<^verbatim>\<open>World.parse\<close> over the characters of line \<open>y\<close>, from column
  \<open>x\<close> on; \<open>init\<close> is \<^verbatim>\<open>init_state\<close> (\<open>None\<close>, or the start found so far: a
  tuple is always true in Python, also \<^verbatim>\<open>(0, 0)\<close>). Finding a second start, the source
  formats the first one, a tuple, with \<^verbatim>\<open>%o\<close>; that raises \<open>TypeError\<close> before
  the \<open>WorldFailure\<close> is built.
\<close>

fun parse_line :: "nat \<Rightarrow> nat \<Rightarrow> (nat \<times> nat) option \<Rightarrow> string \<Rightarrow> error + (nat \<times> nat) option" where
  "parse_line y x init [] = Inr init"
| "parse_line y x init (ch # rest) =
     (if ch \<notin> VALID_CHARS then Inl (WorldFailure (InvalidChar ch x y))
      else if ch = CHR ''@'' then
        (case init of
           Some first \<Rightarrow> Inl TypeError
         | None \<Rightarrow> parse_line y (Suc x) (Some (x, y)) rest)
      else parse_line y (Suc x) init rest)"

text \<open>The outer loop, from line \<open>y\<close> on; \<open>n\<close> is \<^verbatim>\<open>len(lines[0])\<close>.\<close>

fun parse_lines :: "nat \<Rightarrow> nat \<Rightarrow> (nat \<times> nat) option \<Rightarrow> string list \<Rightarrow> error + (nat \<times> nat) option" where
  "parse_lines n y init [] = Inr init"
| "parse_lines n y init (line # rest) =
     (if y > 0 \<and> length line \<noteq> n then Inl (WorldFailure (DifferentLength y (length line) n))
      else case parse_line y 0 init line of
             Inl e \<Rightarrow> Inl e
           | Inr init' \<Rightarrow> parse_lines n (Suc y) init' rest)"

definition parse :: "string \<Rightarrow> error + world" where
  "parse s =
     (let ls = str_split s in
      if ls = [] then Inl (WorldFailure NoContent)
      else case parse_lines (length (hd ls)) 0 None ls of
             Inl e \<Rightarrow> Inl e
           | Inr None \<Rightarrow> Inl (WorldFailure NoInitialState)
           | Inr (Some (x, y)) \<Rightarrow>
               (let line = ls ! y in
                Inr \<lparr>init_state = (int x, int y),
                     lines = ls[y := take x line @ ''.'' @ drop (x + 1) line]\<rparr>))"

text \<open>
  Indexing a Python sequence: a negative index counts from the end, and an index
  outside the sequence raises \<open>IndexError\<close>.
\<close>

definition getitem :: "'a list \<Rightarrow> int \<Rightarrow> error + 'a" where
  "getitem xs i =
     (if 0 \<le> i \<and> i < int (length xs) then Inr (xs ! nat i)
      else if i < 0 \<and> - int (length xs) \<le> i then Inr (xs ! nat (int (length xs) + i))
      else Inl IndexError)"

definition world_h :: "world \<Rightarrow> int" where
  "world_h wd = int (length (lines wd))"

definition world_w :: "world \<Rightarrow> error + int" where
  "world_w wd = (case getitem (lines wd) 0 of Inl e \<Rightarrow> Inl e | Inr l \<Rightarrow> Inr (int (length l)))"

definition world_at :: "world \<Rightarrow> int \<times> int \<Rightarrow> error + char" where
  "world_at wd pos =
     (case pos of (x, y) \<Rightarrow>
        (case getitem (lines wd) y of Inl e \<Rightarrow> Inl e | Inr l \<Rightarrow> getitem l x))"

section \<open>The simulation\<close>

datatype action = ACTION_UP | ACTION_DOWN | ACTION_LEFT | ACTION_RIGHT

fun MOVEMENT :: "action \<Rightarrow> int \<times> int" where
  "MOVEMENT ACTION_UP = (0, -1)"
| "MOVEMENT ACTION_DOWN = (0, 1)"
| "MOVEMENT ACTION_LEFT = (-1, 0)"
| "MOVEMENT ACTION_RIGHT = (1, 0)"

definition ALL_ACTIONS :: "action list" where
  "ALL_ACTIONS = [ACTION_UP, ACTION_DOWN, ACTION_LEFT, ACTION_RIGHT]"

record simulation =
  world :: world
  state :: "int \<times> int"
  score :: int

definition reset :: "simulation \<Rightarrow> simulation" where
  "reset sim = sim\<lparr>state := init_state (world sim), score := 0\<rparr>"

text \<open>The constructor stores the world and calls \<open>reset\<close>.\<close>

definition Simulation :: "world \<Rightarrow> simulation" where
  "Simulation wd = reset \<lparr>world = wd, state = init_state wd, score = 0\<rparr>"

definition in_terminal_state :: "simulation \<Rightarrow> error + bool" where
  "in_terminal_state sim =
     (case world_at (world sim) (state sim) of
        Inl e \<Rightarrow> Inl e
      | Inr c \<Rightarrow> Inr (c \<in> {CHR ''^'', CHR ''$''}))"

definition sim_x :: "simulation \<Rightarrow> int" where
  "sim_x sim = fst (state sim)"

definition sim_y :: "simulation \<Rightarrow> int" where
  "sim_y sim = snd (state sim)"

text \<open>
  \<^verbatim>\<open>_valid_move\<close>: the conjunction is evaluated from the left and stops at the first
  false conjunct, so the width is read only for a non-negative column and the cell only
  for a position inside the grid.
\<close>

definition valid_move :: "simulation \<Rightarrow> int \<times> int \<Rightarrow> error + bool" where
  "valid_move sim new_state =
     (case new_state of (new_x, new_y) \<Rightarrow>
        if \<not> 0 \<le> new_x then Inr False
        else case world_w (world sim) of
          Inl e \<Rightarrow> Inl e
        | Inr width \<Rightarrow>
            if \<not> new_x < width then Inr False
            else if \<not> 0 \<le> new_y then Inr False
            else if \<not> new_y < world_h (world sim) then Inr False
            else case world_at (world sim) new_state of
              Inl e \<Rightarrow> Inl e
            | Inr c \<Rightarrow> Inr (c \<in> {CHR ''.'', CHR ''^'', CHR ''$''}))"

definition act :: "simulation \<Rightarrow> action \<Rightarrow> error + (int \<times> simulation)" where
  "act sim a =
     (let delta = MOVEMENT a;
          new_state = (sim_x sim + fst delta, sim_y sim + snd delta)
      in case valid_move sim new_state of
           Inl e \<Rightarrow> Inl e
         | Inr False \<Rightarrow> Inr (-1, sim\<lparr>score := score sim + (-1)\<rparr>)
         | Inr True \<Rightarrow>
             (case world_at (world sim) new_state of
                Inl e \<Rightarrow> Inl e
              | Inr c \<Rightarrow>
                  (let reward = (if c = CHR ''^'' then -1000 else -1)
                   in Inr (reward, sim\<lparr>state := new_state, score := score sim + reward\<rparr>))))"

section \<open>The value table\<close>

text \<open>
  \<^verbatim>\<open>QTable\<close> wraps a \<^verbatim>\<open>defaultdict\<close> whose factory returns \<open>init_reward\<close>. A value
  is the real number that a finite Python number, an int or a float, stands for (the
  sentinel \<^verbatim>\<open>-1e20\<close> is the integer \<open>- 10 ^ 20\<close> exactly). The table stores and
  compares values, and Python compares numbers exactly; it does no arithmetic. A state is
  any hashable value, a type parameter here.
\<close>

record 's qtable =
  init_reward :: real
  table :: "'s \<times> action \<rightharpoonup> real"

definition QTable :: "real \<Rightarrow> 's qtable" where
  "QTable r = \<lparr>init_reward = r, table = Map.empty\<rparr>"

text \<open>
  Reading a missing key of a \<^verbatim>\<open>defaultdict\<close> stores the default under that key, so
  \<open>get\<close> returns the table as well as the value.
\<close>

definition get :: "'s qtable \<Rightarrow> 's \<Rightarrow> action \<Rightarrow> real \<times> 's qtable" where
  "get qt s a =
     (case table qt (s, a) of
        Some v \<Rightarrow> (v, qt)
      | None \<Rightarrow> (init_reward qt, qt\<lparr>table := (table qt)((s, a) \<mapsto> init_reward qt)\<rparr>))"

text \<open>\<^verbatim>\<open>QTable.set\<close>.\<close>

definition set_entry :: "'s qtable \<Rightarrow> 's \<Rightarrow> action \<Rightarrow> real \<Rightarrow> 's qtable" where
  "set_entry qt s a v = qt\<lparr>table := (table qt)((s, a) \<mapsto> v)\<rparr>"

text \<open>
  The loop of \<^verbatim>\<open>QTable.best\<close> over the actions still to visit, with the pair
  \<^verbatim>\<open>(best_action, best_value)\<close> so far; \<open>None\<close> is Python's \<^verbatim>\<open>None\<close>.
\<close>

fun best_from :: "'s qtable \<Rightarrow> 's \<Rightarrow> action list \<Rightarrow> action option \<times> real
    \<Rightarrow> (action option \<times> real) \<times> 's qtable" where
  "best_from qt s [] b = (b, qt)"
| "best_from qt s (a # rest) (best_action, best_value) =
     (case get qt s a of (v, qt') \<Rightarrow>
        if v > best_value then best_from qt' s rest (Some a, v)
        else best_from qt' s rest (best_action, best_value))"

definition best :: "'s qtable \<Rightarrow> 's \<Rightarrow> (action option \<times> real) \<times> 's qtable" where
  "best qt s = best_from qt s ALL_ACTIONS (None, - (10 ^ 20))"

section \<open>Policies\<close>

definition GreedyQ_pick_action :: "'s qtable \<Rightarrow> 's \<Rightarrow> action option \<times> 's qtable" where
  "GreedyQ_pick_action qt s = (case best qt s of (b, qt') \<Rightarrow> (fst b, qt'))"

text \<open>
  \<^verbatim>\<open>EpsilonPolicy\<close> holds two policies, any objects with a \<^verbatim>\<open>pick_action\<close> method.
  A policy may draw random numbers and read or fill a table, so it is a function on the
  state \<open>'w\<close> of everything it can touch. \<^verbatim>\<open>random.random()\<close> belongs to Python's
  library: it is the parameter \<open>random\<close>, which returns the sample and the new state.
\<close>

record ('s, 'w, 'r) epsilon_policy =
  policy_a :: "'s \<Rightarrow> 'w \<Rightarrow> 'r \<times> 'w"
  policy_b :: "'s \<Rightarrow> 'w \<Rightarrow> 'r \<times> 'w"
  epsilon :: real

definition EpsilonPolicy_pick_action ::
    "('w \<Rightarrow> real \<times> 'w) \<Rightarrow> ('s, 'w, 'r) epsilon_policy \<Rightarrow> 's \<Rightarrow> 'w \<Rightarrow> 'r \<times> 'w" where
  "EpsilonPolicy_pick_action random p s w =
     (case random w of (sample, w') \<Rightarrow>
        if sample < epsilon p then policy_b p s w' else policy_a p s w')"

section \<open>The learner\<close>




section \<open>Vocabulary of the properties\<close>

text \<open>
  A world is rectangular when it has a line and every line is as long as the first:
  the grid model's invariant that every row has \<open>width\<close> columns.
\<close>

definition rectangular :: "world \<Rightarrow> bool" where
  "rectangular wd = (lines wd \<noteq> [] \<and> list_all (\<lambda>l. length l = length (hd (lines wd))) (lines wd))"

definition in_bounds :: "world \<Rightarrow> int \<times> int \<Rightarrow> bool" where
  "in_bounds wd pos =
     (case pos of (x, y) \<Rightarrow>
        0 \<le> x \<and> x < int (length (hd (lines wd))) \<and> 0 \<le> y \<and> y < int (length (lines wd)))"

text \<open>The character of a cell inside the grid.\<close>

definition cell :: "world \<Rightarrow> int \<times> int \<Rightarrow> char" where
  "cell wd pos = (case pos of (x, y) \<Rightarrow> lines wd ! nat y ! nat x)"

text \<open>The cell an action aims at: the position plus the action's unit vector.\<close>

definition candidate :: "simulation \<Rightarrow> action \<Rightarrow> int \<times> int" where
  "candidate sim a = (fst (state sim) + fst (MOVEMENT a), snd (state sim) + snd (MOVEMENT a))"

text \<open>A cell the player may enter: inside the grid, and floor, trap or goal.\<close>

definition enterable :: "world \<Rightarrow> int \<times> int \<Rightarrow> bool" where
  "enterable wd pos = (in_bounds wd pos \<and> cell wd pos \<in> {CHR ''.'', CHR ''^'', CHR ''$''})"

text \<open>
  A world is well formed when it is rectangular and its start is a floor cell inside
  the grid, as \<open>parse\<close> leaves it.
\<close>

definition well_formed :: "world \<Rightarrow> bool" where
  "well_formed wd =
     (rectangular wd \<and> in_bounds wd (init_state wd) \<and> cell wd (init_state wd) = CHR ''.'')"

text \<open>
  What a driver does with a simulation: a sequence of \<open>reset\<close> and \<open>act\<close> calls.
  The states \<open>run\<close> reaches from \<open>Simulation wd\<close> are the reachable ones.
\<close>

datatype command = Reset | Act action

fun run :: "simulation \<Rightarrow> command list \<Rightarrow> error + simulation" where
  "run sim [] = Inr sim"
| "run sim (Reset # cs) = run (reset sim) cs"
| "run sim (Act a # cs) = (case act sim a of Inl e \<Rightarrow> Inl e | Inr (reward, sim') \<Rightarrow> run sim' cs)"

text \<open>The position is inside the grid and not on a wall (\<open>#\<close> or blank).\<close>

definition position_ok :: "simulation \<Rightarrow> bool" where
  "position_ok sim =
     (in_bounds (world sim) (state sim) \<and> cell (world sim) (state sim) \<notin> {CHR ''#'', CHR '' ''})"

text \<open>
  What the table holds for a key: the stored value, or the default when there is none.
\<close>

definition entry :: "'s qtable \<Rightarrow> 's \<times> action \<Rightarrow> real" where
  "entry qt k = (case table qt k of Some v \<Rightarrow> v | None \<Rightarrow> init_reward qt)"

text \<open>The loop of \<open>best\<close> over the values alone.\<close>

fun scan :: "(action \<Rightarrow> real) \<Rightarrow> action list \<Rightarrow> action option \<times> real \<Rightarrow> action option \<times> real" where
  "scan f [] b = b"
| "scan f (a # rest) (best_action, best_value) =
     (if f a > best_value then scan f rest (Some a, f a) else scan f rest (best_action, best_value))"

text \<open>
  The calls a client makes on a table, and the answers it sees: \<open>answers qt cs\<close> are
  the results of the calls \<open>cs\<close> made in this order on the table \<open>qt\<close>.
\<close>

datatype 's call = Get 's action | Best 's | Set 's action real
datatype answer = Value real | Choice "action option" real | Nothing

fun answers :: "'s qtable \<Rightarrow> 's call list \<Rightarrow> answer list" where
  "answers qt [] = []"
| "answers qt (Get s a # cs) = (case get qt s a of (v, qt') \<Rightarrow> Value v # answers qt' cs)"
| "answers qt (Best s # cs) = (case best qt s of ((a, v), qt') \<Rightarrow> Choice a v # answers qt' cs)"
| "answers qt (Set s a v # cs) = Nothing # answers (set_entry qt s a v) cs"

text \<open>The greatest of the four values of a state.\<close>

definition greatest :: "'s qtable \<Rightarrow> 's \<Rightarrow> real" where
  "greatest qt s = Max (set (map (\<lambda>a. fst (get qt s a)) ALL_ACTIONS))"




subsection \<open>Worlds and states for the examples\<close>

definition two_by_two :: world where
  "two_by_two = \<lparr>init_state = (0, 0), lines = [''.^'', ''#$'']\<rparr>"

text \<open>The world of the text \<^verbatim>\<open>@^.\<close>, and the player on its trap.\<close>

definition corridor :: world where
  "corridor = \<lparr>init_state = (0, 0), lines = [''.^.'']\<rparr>"

definition on_trap :: simulation where
  "on_trap = \<lparr>world = corridor, state = (1, 0), score = -1000\<rparr>"

text \<open>
  A learner on a new table with default \<open>0\<close>; a table where two actions tie; a random
  source that always draws one half; a policy that always picks the same action.
\<close>





definition tied :: "(int \<times> int) qtable" where
  "tied = set_entry (set_entry (QTable 0) (0, 0) ACTION_DOWN 5) (0, 0) ACTION_LEFT 5"

definition half_sample :: "nat \<Rightarrow> real \<times> nat" where
  "half_sample n = (1 / 2, Suc n)"

definition fixed_policy :: "action \<Rightarrow> int \<times> int \<Rightarrow> nat \<Rightarrow> action \<times> nat" where
  "fixed_policy a s n = (a, n)"

section \<open>Reading a rectangular world\<close>

lemma getitem_in_range: "0 \<le> i \<Longrightarrow> i < int (length xs) \<Longrightarrow> getitem xs i = Inr (xs ! nat i)"
  by (simp add: getitem_def)

lemma world_w_rectangular: "rectangular wd \<Longrightarrow> world_w wd = Inr (int (length (hd (lines wd))))"
  by (cases "lines wd") (simp_all add: rectangular_def world_w_def getitem_def)

lemma world_at_in_bounds:
  assumes "rectangular wd" and "in_bounds wd pos"
  shows "world_at wd pos = Inr (cell wd pos)"
proof -
  obtain x y where pos: "pos = (x, y)" by (cases pos)
  from assms(2) pos have x: "0 \<le> x" "x < int (length (hd (lines wd)))"
    and y: "0 \<le> y" "y < int (length (lines wd))"
    by (simp_all add: in_bounds_def)
  from y have mem: "lines wd ! nat y \<in> set (lines wd)" by simp
  with assms(1) have len: "length (lines wd ! nat y) = length (hd (lines wd))"
    unfolding rectangular_def list_all_iff by blast
  have row: "getitem (lines wd) y = Inr (lines wd ! nat y)"
    using y by (rule getitem_in_range)
  have "x < int (length (lines wd ! nat y))"
    using x(2) by (simp only: len)
  with x(1) have "getitem (lines wd ! nat y) x = Inr (lines wd ! nat y ! nat x)"
    by (rule getitem_in_range)
  with row show ?thesis
    by (simp add: pos world_at_def cell_def)
qed

lemma valid_move_rectangular:
  assumes "rectangular (world sim)"
  shows "valid_move sim pos = Inr (enterable (world sim) pos)"
proof (cases "in_bounds (world sim) pos")
  case True
  with assms have "world_at (world sim) pos = Inr (cell (world sim) pos)"
    by (rule world_at_in_bounds)
  with True assms show ?thesis
    by (cases pos)
       (simp add: valid_move_def world_w_rectangular world_h_def in_bounds_def enterable_def)
next
  case False
  with assms show ?thesis
    by (cases pos)
       (auto simp add: valid_move_def world_w_rectangular world_h_def in_bounds_def enterable_def)
qed

lemma act_rectangular:
  assumes "rectangular (world sim)"
  shows "act sim a =
    (if enterable (world sim) (candidate sim a)
     then (let reward = (if cell (world sim) (candidate sim a) = CHR ''^'' then -1000 else -1)
           in Inr (reward, sim\<lparr>state := candidate sim a, score := score sim + reward\<rparr>))
     else Inr (-1, sim\<lparr>score := score sim + (-1)\<rparr>))"
proof (cases "enterable (world sim) (candidate sim a)")
  case True
  then have "in_bounds (world sim) (candidate sim a)" by (simp add: enterable_def)
  with assms have "world_at (world sim) (candidate sim a) = Inr (cell (world sim) (candidate sim a))"
    by (rule world_at_in_bounds)
  with True assms show ?thesis
    by (simp add: act_def valid_move_rectangular candidate_def sim_x_def sim_y_def Let_def)
next
  case False
  with assms show ?thesis
    by (simp add: act_def valid_move_rectangular candidate_def sim_x_def sim_y_def Let_def)
qed

section \<open>What parsing guarantees\<close>

lemma parse_line_start:
  "parse_line y x0 init l = Inr (Some p) \<Longrightarrow>
     init = Some p \<or> (init = None \<and> snd p = y \<and> x0 \<le> fst p \<and> fst p < x0 + length l)"
proof (induction l arbitrary: x0 init)
  case Nil
  then show ?case by simp
next
  case (Cons ch rest)
  show ?case
  proof (cases "ch = CHR ''@''")
    case True
    with Cons.prems have none: "init = None"
      and rec: "parse_line y (Suc x0) (Some (x0, y)) rest = Inr (Some p)"
      by (auto split: if_splits option.splits)
    from Cons.IH [OF rec] have "p = (x0, y)" by auto
    with none show ?thesis by simp
  next
    case False
    with Cons.prems have rec: "parse_line y (Suc x0) init rest = Inr (Some p)"
      by (auto split: if_splits)
    from Cons.IH [OF rec] show ?thesis by auto
  qed
qed

lemma parse_lines_start:
  "parse_lines n y0 init ls = Inr (Some p) \<Longrightarrow>
     init = Some p \<or> (y0 \<le> snd p \<and> snd p < y0 + length ls \<and> fst p < length (ls ! (snd p - y0)))"
proof (induction ls arbitrary: y0 init)
  case Nil
  then show ?case by simp
next
  case (Cons l rest)
  from Cons.prems obtain init' where
    line: "parse_line y0 0 init l = Inr init'" and
    rec: "parse_lines n (Suc y0) init' rest = Inr (Some p)"
    by (auto split: if_splits sum.splits)
  from Cons.IH [OF rec] show ?case
  proof
    assume "init' = Some p"
    with line have "init = Some p \<or> (init = None \<and> snd p = y0 \<and> 0 \<le> fst p \<and> fst p < 0 + length l)"
      using parse_line_start by blast
    then show ?thesis by auto
  next
    assume later: "Suc y0 \<le> snd p \<and> snd p < Suc y0 + length rest
      \<and> fst p < length (rest ! (snd p - Suc y0))"
    then have "snd p - y0 = Suc (snd p - Suc y0)" by arith
    then have "(l # rest) ! (snd p - y0) = rest ! (snd p - Suc y0)"
      by simp
    with later show ?thesis by simp
  qed
qed

lemma parse_lines_lengths:
  "parse_lines n y0 init ls = Inr r \<Longrightarrow> 0 < y0 \<Longrightarrow> l \<in> set ls \<Longrightarrow> length l = n"
proof (induction ls arbitrary: y0 init)
  case Nil
  then show ?case by simp
next
  case (Cons l' rest)
  from Cons.prems(1,2) obtain init' where
    len: "length l' = n" and
    rec: "parse_lines n (Suc y0) init' rest = Inr r"
    by (auto split: if_splits sum.splits)
  from Cons.prems(3) have "l = l' \<or> l \<in> set rest" by simp
  then show ?case
  proof
    assume "l = l'" with len show ?thesis by simp
  next
    assume "l \<in> set rest"
    with Cons.IH [OF rec] show ?thesis by simp
  qed
qed

lemma parse_lines_rows:
  assumes "parse_lines (length (hd ls)) 0 init ls = Inr r" and "l \<in> set ls"
  shows "length l = length (hd ls)"
proof (cases ls)
  case Nil
  with assms(2) show ?thesis by simp
next
  case (Cons l' rest)
  with assms(1) obtain init' where rec: "parse_lines (length l') (Suc 0) init' rest = Inr r"
    by (auto split: sum.splits)
  from assms(2) Cons have "l = l' \<or> l \<in> set rest" by simp
  then show ?thesis
  proof
    assume "l = l'" with Cons show ?thesis by simp
  next
    assume "l \<in> set rest"
    with parse_lines_lengths [OF rec] Cons show ?thesis by simp
  qed
qed

lemma parse_well_formed:
  assumes "parse s = Inr wd"
  shows "well_formed wd"
proof -
  define ls where "ls = str_split s"
  from assms have ne: "ls \<noteq> []"
    by (auto simp add: parse_def ls_def Let_def split: if_splits)
  with assms obtain x y where
    found: "parse_lines (length (hd ls)) 0 None ls = Inr (Some (x, y))" and
    wd: "wd = \<lparr>init_state = (int x, int y),
              lines = ls[y := take x (ls ! y) @ ''.'' @ drop (x + 1) (ls ! y)]\<rparr>"
    by (auto simp add: parse_def ls_def [symmetric] Let_def split: if_splits sum.splits option.splits)
  from parse_lines_start [OF found] have y: "y < length ls" and x: "x < length (ls ! y)"
    by simp_all
  have rows: "\<And>l. l \<in> set ls \<Longrightarrow> length l = length (hd ls)"
    using found by (rule parse_lines_rows)
  from y have "ls ! y \<in> set ls" by simp
  then have leny: "length (ls ! y) = length (hd ls)" by (rule rows)
  define l' where "l' = take x (ls ! y) @ ''.'' @ drop (x + 1) (ls ! y)"
  have lenl': "length l' = length (hd ls)"
    using x leny by (simp add: l'_def)
  have at_x: "l' ! x = CHR ''.''"
    using x by (simp add: l'_def nth_append)
  have lines: "lines wd = ls[y := l']" by (simp add: wd l'_def)
  have rows': "\<And>l. l \<in> set (ls[y := l']) \<Longrightarrow> length l = length (hd ls)"
  proof -
    fix l assume "l \<in> set (ls[y := l'])"
    then have "l = l' \<or> l \<in> set ls"
      using set_update_subset_insert [of ls y l'] by auto
    then show "length l = length (hd ls)" using lenl' rows by auto
  qed
  from ne have "hd (ls[y := l']) \<in> set (ls[y := l'])" by simp
  then have hd': "length (hd (ls[y := l'])) = length (hd ls)" by (rule rows')
  have rect: "rectangular wd"
    unfolding rectangular_def list_all_iff lines using ne rows' hd' by simp
  have init: "init_state wd = (int x, int y)" by (simp add: wd)
  have inb: "in_bounds wd (init_state wd)"
    using x y leny hd' by (simp add: in_bounds_def lines init)
  have "cell wd (init_state wd) = CHR ''.''"
    using y at_x by (simp add: cell_def lines init)
  with rect inb show ?thesis by (simp add: well_formed_def)
qed

lemma parse_corridor: "parse ''@^.'' = Inr corridor"
  by (simp add: parse_def str_split_def isspace_def VALID_CHARS_def corridor_def)

section \<open>Steps keep the position valid\<close>

lemma position_ok_Simulation: "well_formed wd \<Longrightarrow> position_ok (Simulation wd)"
  by (simp add: well_formed_def position_ok_def Simulation_def reset_def)

lemma position_ok_reset:
  "well_formed (world sim) \<Longrightarrow> position_ok (reset sim)"
  by (simp add: well_formed_def position_ok_def reset_def)

lemma act_total:
  assumes "rectangular (world sim)"
  shows "\<exists>reward sim'. act sim a = Inr (reward, sim') \<and> world sim' = world sim
     \<and> (if enterable (world sim) (candidate sim a) then state sim' = candidate sim a
         else state sim' = state sim)"
  by (simp add: act_rectangular [OF assms] Let_def)

lemma position_ok_act:
  assumes "rectangular (world sim)" and "position_ok sim" and "act sim a = Inr (reward, sim')"
  shows "position_ok sim'"
proof (cases "enterable (world sim) (candidate sim a)")
  case True
  with assms(3) have "state sim' = candidate sim a" "world sim' = world sim"
    by (auto simp add: act_rectangular [OF assms(1)] Let_def)
  with True show ?thesis by (auto simp add: position_ok_def enterable_def)
next
  case False
  with assms(3) have "state sim' = state sim" "world sim' = world sim"
    by (auto simp add: act_rectangular [OF assms(1)])
  with assms(2) show ?thesis by (simp add: position_ok_def)
qed

lemma run_position_ok:
  "well_formed (world sim) \<Longrightarrow> position_ok sim \<Longrightarrow>
     \<exists>sim'. run sim cs = Inr sim' \<and> world sim' = world sim \<and> position_ok sim'"
proof (induction cs arbitrary: sim)
  case Nil
  then show ?case by simp
next
  case (Cons c cs)
  show ?case
  proof (cases c)
    case Reset
    have "world (reset sim) = world sim" by (simp add: reset_def)
    moreover from Cons.prems(1) have "position_ok (reset sim)" by (rule position_ok_reset)
    ultimately show ?thesis using Cons.IH [of "reset sim"] Cons.prems(1) Reset by simp
  next
    case (Act a)
    from Cons.prems(1) have rect: "rectangular (world sim)" by (simp add: well_formed_def)
    from act_total [OF rect, of a] obtain reward sim1 where
      step: "act sim a = Inr (reward, sim1)" and same: "world sim1 = world sim"
      by blast
    from rect Cons.prems(2) step have "position_ok sim1" by (rule position_ok_act)
    with Cons.IH [of sim1] Cons.prems(1) same step Act show ?thesis by simp
  qed
qed

lemma in_terminal_state_in_bounds:
  assumes "rectangular (world sim)" and "in_bounds (world sim) (state sim)"
  shows "in_terminal_state sim = Inr (cell (world sim) (state sim) \<in> {CHR ''^'', CHR ''$''})"
  by (simp add: in_terminal_state_def world_at_in_bounds [OF assms])

lemma candidate_moves: "candidate sim a \<noteq> state sim"
  by (cases a; cases "state sim") (simp_all add: candidate_def)

section \<open>The table seen through its entries\<close>

lemma fst_get: "fst (get qt s a) = entry qt (s, a)"
  by (simp add: get_def entry_def split: option.split)

lemma entry_get: "entry (snd (get qt s a)) k = entry qt k"
  by (simp add: get_def entry_def split: option.split)

lemma init_reward_get: "init_reward (snd (get qt s a)) = init_reward qt"
  by (simp add: get_def split: option.split)

lemma entry_set_entry: "entry (set_entry qt s a v) k = (if k = (s, a) then v else entry qt k)"
  by (simp add: set_entry_def entry_def split: option.split)

lemma best_from_scan:
  "fst (best_from qt s as b) = scan (\<lambda>a. entry qt (s, a)) as b"
proof (induction as arbitrary: qt b)
  case Nil
  then show ?case by simp
next
  case (Cons a as)
  obtain ba bv where b: "b = (ba, bv)" by (cases b)
  obtain v qt' where g: "get qt s a = (v, qt')" by (cases "get qt s a")
  from g have v: "v = entry qt (s, a)" using fst_get [of qt s a] by simp
  from g have "\<And>k. entry qt' k = entry qt k" using entry_get [of qt s a] by simp
  then have same: "(\<lambda>a. entry qt' (s, a)) = (\<lambda>a. entry qt (s, a))" by simp
  show ?case
    by (simp add: b g Cons.IH same v)
qed

lemma entry_best_from: "entry (snd (best_from qt s as b)) k = entry qt k"
proof (induction as arbitrary: qt b)
  case Nil
  then show ?case by simp
next
  case (Cons a as)
  obtain ba bv where b: "b = (ba, bv)" by (cases b)
  obtain v qt' where g: "get qt s a = (v, qt')" by (cases "get qt s a")
  from g have "entry qt' k = entry qt k" using entry_get [of qt s a k] by simp
  then show ?case by (simp add: b g Cons.IH)
qed

lemma init_reward_best_from: "init_reward (snd (best_from qt s as b)) = init_reward qt"
proof (induction as arbitrary: qt b)
  case Nil
  then show ?case by simp
next
  case (Cons a as)
  obtain ba bv where b: "b = (ba, bv)" by (cases b)
  obtain v qt' where g: "get qt s a = (v, qt')" by (cases "get qt s a")
  from g have "init_reward qt' = init_reward qt" using init_reward_get [of qt s a] by simp
  then show ?case by (simp add: b g Cons.IH)
qed

lemma fst_best: "fst (best qt s) = scan (\<lambda>a. entry qt (s, a)) ALL_ACTIONS (None, - (10 ^ 20))"
  by (simp add: best_def best_from_scan)

lemma entry_best: "entry (snd (best qt s)) k = entry qt k"
  by (simp add: best_def entry_best_from)

lemma snd_scan: "snd (scan f as (ba, bv)) = Max (insert bv (f ` set as))"
proof (induction as arbitrary: ba bv)
  case Nil
  then show ?case by simp
next
  case (Cons a as)
  define S where "S = f ` set as"
  have fin: "finite S" by (simp add: S_def)
  show ?case
  proof (cases "f a > bv")
    case True
    have "f a \<le> Max (insert (f a) S)" using fin by simp
    with True have "max bv (Max (insert (f a) S)) = Max (insert (f a) S)" by simp
    moreover have "Max (insert bv (insert (f a) S)) = max bv (Max (insert (f a) S))"
      by (rule Max_insert) (simp_all add: fin)
    ultimately have "Max (insert bv (insert (f a) S)) = Max (insert (f a) S)" by simp
    with True show ?thesis by (simp add: Cons.IH S_def)
  next
    case False
    have "bv \<le> Max (insert bv S)" using fin by simp
    with False have "max (f a) (Max (insert bv S)) = Max (insert bv S)" by simp
    moreover have "Max (insert (f a) (insert bv S)) = max (f a) (Max (insert bv S))"
      by (rule Max_insert) (simp_all add: fin)
    ultimately have "Max (insert bv (insert (f a) S)) = Max (insert bv S)"
      by (simp add: insert_commute)
    with False show ?thesis by (simp add: Cons.IH S_def)
  qed
qed

lemma fst_scan_none:
  "\<forall>a\<in>set as. f a \<le> bv \<Longrightarrow> scan f as (ba, bv) = (ba, bv)"
  by (induction as) auto

lemma fst_scan_some:
  assumes "\<exists>a\<in>set as. bv < f a"
  shows "fst (scan f as (ba, bv)) = find (\<lambda>a. f a = Max (f ` set as)) as"
  using assms
proof (induction as arbitrary: ba bv)
  case Nil
  then show ?case by simp
next
  case (Cons a as)
  define S where "S = f ` set as"
  have fin: "finite S" by (simp add: S_def)
  have later: "fst (scan f as (ba', bv')) = find (\<lambda>a. f a = Max S) as
      \<and> Max (f ` set (a # as)) = Max S \<and> f a \<noteq> Max S"
    if x: "x \<in> set as" "bv' < f x" "f a \<le> bv'" for x ba' bv'
  proof -
    from x(1) have ne: "S \<noteq> {}" and "f x \<le> Max S" using fin by (auto simp add: S_def)
    with x(2,3) have big: "f a < Max S" by simp
    have "Max (insert (f a) S) = max (f a) (Max S)" using fin ne by (rule Max_insert)
    with big have "Max (f ` set (a # as)) = Max S" by (simp add: S_def)
    moreover from x(1,2) have "\<exists>a\<in>set as. bv' < f a" by blast
    then have "fst (scan f as (ba', bv')) = find (\<lambda>a. f a = Max S) as"
      unfolding S_def by (rule Cons.IH)
    ultimately show ?thesis using big by simp
  qed
  show ?case
  proof (cases "bv < f a")
    case True
    show ?thesis
    proof (cases "\<exists>x\<in>set as. f a < f x")
      case True
      then obtain x where "x \<in> set as" "f a < f x" by blast
      then have "fst (scan f as (Some a, f a)) = find (\<lambda>a. f a = Max S) as
        \<and> Max (f ` set (a # as)) = Max S \<and> f a \<noteq> Max S"
        by (rule later) simp
      with \<open>bv < f a\<close> show ?thesis by simp
    next
      case False
      then have le: "\<forall>x\<in>set as. f x \<le> f a" by force
      then have "Max (insert (f a) S) = f a"
        using fin by (intro Max_eqI) (auto simp add: S_def)
      then have M: "Max (f ` set (a # as)) = f a" by (simp add: S_def)
      with fst_scan_none [OF le, of "Some a"] \<open>bv < f a\<close> show ?thesis by simp
    qed
  next
    case False
    with Cons.prems obtain x where x: "x \<in> set as" "bv < f x" by auto
    from False have "f a \<le> bv" by simp
    with x have "fst (scan f as (ba, bv)) = find (\<lambda>a. f a = Max S) as
        \<and> Max (f ` set (a # as)) = Max S \<and> f a \<noteq> Max S"
      by (rule later)
    with False show ?thesis by simp
  qed
qed

lemma greatest_entry: "greatest qt s = Max ((\<lambda>a. entry qt (s, a)) ` set ALL_ACTIONS)"
  by (simp add: greatest_def fst_get)

lemma every_action: "a \<in> set ALL_ACTIONS"
  by (cases a) (simp_all add: ALL_ACTIONS_def)

lemma ALL_ACTIONS_nonempty: "set ALL_ACTIONS \<noteq> {}"
  by (simp add: ALL_ACTIONS_def)

lemma best_none:
  assumes "\<forall>a. entry qt (s, a) \<le> - (10 ^ 20)"
  shows "fst (best qt s) = (None, - (10 ^ 20))"
  using assms by (simp add: fst_best fst_scan_none)

lemma best_some:
  assumes "\<exists>a. - (10 ^ 20) < entry qt (s, a)"
  shows "fst (best qt s) = (find (\<lambda>a. entry qt (s, a) = greatest qt s) ALL_ACTIONS, greatest qt s)"
proof -
  let ?f = "\<lambda>a. entry qt (s, a)"
  from assms have ex: "\<exists>a\<in>set ALL_ACTIONS. - (10 ^ 20) < ?f a"
    using every_action by blast
  then have 1: "fst (scan ?f ALL_ACTIONS (None, - (10 ^ 20)))
      = find (\<lambda>a. ?f a = Max (?f ` set ALL_ACTIONS)) ALL_ACTIONS"
    by (rule fst_scan_some)
  from ex obtain a where a: "a \<in> set ALL_ACTIONS" "- (10 ^ 20) < ?f a" by blast
  then have "?f a \<le> Max (?f ` set ALL_ACTIONS)" by simp
  with a(2) have "- (10 ^ 20) < Max (?f ` set ALL_ACTIONS)" by (rule less_le_trans)
  then have "max (- (10 ^ 20)) (Max (?f ` set ALL_ACTIONS)) = Max (?f ` set ALL_ACTIONS)" by simp
  moreover have "Max (insert (- (10 ^ 20)) (?f ` set ALL_ACTIONS))
      = max (- (10 ^ 20)) (Max (?f ` set ALL_ACTIONS))"
    by (rule Max_insert) (simp_all add: ALL_ACTIONS_def)
  ultimately have 2: "snd (scan ?f ALL_ACTIONS (None, - (10 ^ 20))) = Max (?f ` set ALL_ACTIONS)"
    by (simp add: snd_scan)
  from 1 2 show ?thesis
    by (simp add: fst_best greatest_entry prod_eq_iff)
qed

lemma greatest_gt_iff: "(- (10 ^ 20) < greatest qt s) = (\<exists>a. - (10 ^ 20) < entry qt (s, a))"
proof -
  have "(- (10 ^ 20) < Max ((\<lambda>a. entry qt (s, a)) ` set ALL_ACTIONS))
      = (\<exists>v\<in>(\<lambda>a. entry qt (s, a)) ` set ALL_ACTIONS. - (10 ^ 20) < v)"
    by (rule Max_gr_iff) (simp_all add: ALL_ACTIONS_def)
  then show ?thesis using every_action by (auto simp add: greatest_entry)
qed

lemma answers_same_entries:
  "(\<And>k. entry q1 k = entry q2 k) \<Longrightarrow> answers q1 cs = answers q2 cs"
proof (induction cs arbitrary: q1 q2)
  case Nil
  then show ?case by simp
next
  case (Cons c cs)
  show ?case
  proof (cases c)
    case (Get s a)
    obtain v1 q1' where g1: "get q1 s a = (v1, q1')" by (cases "get q1 s a")
    obtain v2 q2' where g2: "get q2 s a = (v2, q2')" by (cases "get q2 s a")
    from g1 g2 have "v1 = entry q1 (s, a)" "v2 = entry q2 (s, a)"
      using fst_get [of q1 s a] fst_get [of q2 s a] by simp_all
    with Cons.prems have v: "v1 = v2" by simp
    from g1 g2 have "\<And>k. entry q1' k = entry q1 k" "\<And>k. entry q2' k = entry q2 k"
      using entry_get [of q1 s a] entry_get [of q2 s a] by simp_all
    with Cons.prems have "\<And>k. entry q1' k = entry q2' k" by simp
    then have "answers q1' cs = answers q2' cs" by (rule Cons.IH)
    with v g1 g2 Get show ?thesis by simp
  next
    case (Best s)
    obtain b1 q1' where g1: "best q1 s = (b1, q1')" by (cases "best q1 s")
    obtain b2 q2' where g2: "best q2 s = (b2, q2')" by (cases "best q2 s")
    from Cons.prems have "(\<lambda>a. entry q1 (s, a)) = (\<lambda>a. entry q2 (s, a))" by simp
    with g1 g2 have v: "b1 = b2"
      using fst_best [of q1 s] fst_best [of q2 s] by simp
    from g1 g2 have "\<And>k. entry q1' k = entry q1 k" "\<And>k. entry q2' k = entry q2 k"
      using entry_best [of q1 s] entry_best [of q2 s] by simp_all
    with Cons.prems have "\<And>k. entry q1' k = entry q2' k" by simp
    then have "answers q1' cs = answers q2' cs" by (rule Cons.IH)
    with v g1 g2 Best show ?thesis by (cases b2) simp
  next
    case (Set s a v)
    from Cons.prems have "\<And>k. entry (set_entry q1 s a v) k = entry (set_entry q2 s a v) k"
      by (simp add: entry_set_entry)
    then have "answers (set_entry q1 s a v) cs = answers (set_entry q2 s a v) cs"
      by (rule Cons.IH)
    with Set show ?thesis by simp
  qed
qed

lemma best_same_entries:
  "(\<And>k. entry q1 k = entry q2 k) \<Longrightarrow> fst (best q1 s) = fst (best q2 s)"
  by (simp add: fst_best)






section \<open>The tests of the repository\<close>

text \<open>
  The unit tests of \<^verbatim>\<open>grid.py\<close>, run on the definitions above: \<^verbatim>\<open>TestWorld\<close>,
  \<^verbatim>\<open>TestSimulation\<close> and the table and policy of \<^verbatim>\<open>TestMachinePlayer.test_interact\<close>.
\<close>

lemma test_size:
  "parse ''@$'' = Inr \<lparr>init_state = (0, 0), lines = [''.$'']\<rparr>
   \<and> world_w \<lparr>init_state = (0, 0), lines = [''.$'']\<rparr> = Inr 2
   \<and> world_h \<lparr>init_state = (0, 0), lines = [''.$'']\<rparr> = 1"
  by (simp add: parse_def str_split_def isspace_def VALID_CHARS_def world_w_def world_h_def
      getitem_def)

lemma test_init_state:
  "parse (''####'' @ [CHR 0x0A] @ ''#.@#'' @ [CHR 0x0A] @ ''####'')
     = Inr \<lparr>init_state = (2, 1), lines = [''####'', ''#..#'', ''####'']\<rparr>"
  by (simp add: parse_def str_split_def isspace_def VALID_CHARS_def)

lemma test_parse_no_init_state_fails: "parse ''#'' = Inl (WorldFailure NoInitialState)"
  by (simp add: parse_def str_split_def isspace_def VALID_CHARS_def)

lemma test_in_terminal_state:
  "parse ''@^'' = Inr \<lparr>init_state = (0, 0), lines = [''.^'']\<rparr>
   \<and> in_terminal_state (Simulation \<lparr>init_state = (0, 0), lines = [''.^'']\<rparr>) = Inr False
   \<and> (case run (Simulation \<lparr>init_state = (0, 0), lines = [''.^'']\<rparr>) [Act ACTION_RIGHT] of
         Inl e \<Rightarrow> Inl e | Inr sim \<Rightarrow> in_terminal_state sim) = Inr True"
  by (simp add: parse_def str_split_def isspace_def VALID_CHARS_def
      act_def valid_move_def world_w_def world_h_def world_at_def getitem_def
      in_terminal_state_def sim_x_def sim_y_def Simulation_def reset_def Let_def)

lemma test_act_accumulates_score:
  "parse ''@.'' = Inr \<lparr>init_state = (0, 0), lines = [''..'']\<rparr>
   \<and> run (Simulation \<lparr>init_state = (0, 0), lines = [''..'']\<rparr>) [Act ACTION_RIGHT, Act ACTION_LEFT]
       = Inr \<lparr>world = \<lparr>init_state = (0, 0), lines = [''..'']\<rparr>, state = (0, 0), score = -2\<rparr>"
  by (simp add: parse_def str_split_def isspace_def VALID_CHARS_def
      act_def valid_move_def world_w_def world_h_def world_at_def getitem_def
      sim_x_def sim_y_def Simulation_def reset_def Let_def)

lemma test_interact:
  "fst (GreedyQ_pick_action (set_entry (QTable (-1)) (0 :: int, 0 :: int) ACTION_RIGHT 1) (0, 0))
     = Some ACTION_RIGHT"
  by (simp add: GreedyQ_pick_action_def best_def ALL_ACTIONS_def get_def set_entry_def QTable_def)

section \<open>The step rule\<close>

text \<open>
  C1. In a rectangular world, \<open>act\<close> returns: the reward is \<open>-1\<close>, except \<open>-1000\<close>
  when the candidate cell is inside the grid and is a trap; the position becomes the
  candidate exactly when the candidate is inside the grid and is floor, trap or goal,
  and is unchanged otherwise; the score grows by the returned reward in both cases; the
  world is not touched.
\<close>

theorem act_reward_position_score:
  assumes "rectangular (world sim)"
  shows "\<exists>reward sim'. act sim a = Inr (reward, sim')
    \<and> reward = (if in_bounds (world sim) (candidate sim a)
                   \<and> world_at (world sim) (candidate sim a) = Inr (CHR ''^'') then -1000 else -1)
    \<and> state sim' = (if in_bounds (world sim) (candidate sim a)
                   \<and> world_at (world sim) (candidate sim a) \<in> {Inr (CHR ''.''), Inr (CHR ''^''), Inr (CHR ''$'')}
                 then candidate sim a else state sim)
    \<and> score sim' = score sim + reward
    \<and> world sim' = world sim"
proof (cases "in_bounds (world sim) (candidate sim a)")
  case True
  with assms have "world_at (world sim) (candidate sim a) = Inr (cell (world sim) (candidate sim a))"
    by (rule world_at_in_bounds)
  with True show ?thesis
    by (auto simp add: act_rectangular [OF assms] enterable_def Let_def)
next
  case False
  then show ?thesis
    by (simp add: act_rectangular [OF assms] enterable_def)
qed

theorem act_reward_position_score_witness:
  "rectangular two_by_two
   \<and> act \<lparr>world = two_by_two, state = (0, 0), score = 0\<rparr> ACTION_RIGHT
       = Inr (-1000, \<lparr>world = two_by_two, state = (1, 0), score = -1000\<rparr>)
   \<and> act \<lparr>world = two_by_two, state = (0, 0), score = 0\<rparr> ACTION_DOWN
       = Inr (-1, \<lparr>world = two_by_two, state = (0, 0), score = -1\<rparr>)"
proof -
  have r: "rectangular two_by_two"
    by (simp add: rectangular_def two_by_two_def)
  let ?s = "\<lparr>world = two_by_two, state = (0, 0), score = 0\<rparr>"
  have r': "rectangular (world ?s)" using r by simp
  have right: "in_bounds (world ?s) (candidate ?s ACTION_RIGHT)"
    "world_at (world ?s) (candidate ?s ACTION_RIGHT) = Inr (CHR ''^'')"
    by (simp_all add: in_bounds_def candidate_def two_by_two_def world_at_def getitem_def)
  have down: "in_bounds (world ?s) (candidate ?s ACTION_DOWN)"
    "world_at (world ?s) (candidate ?s ACTION_DOWN) = Inr (CHR ''#'')"
    by (simp_all add: in_bounds_def candidate_def two_by_two_def world_at_def getitem_def)
  from act_reward_position_score [OF r', of ACTION_RIGHT] right
  have "act ?s ACTION_RIGHT = Inr (-1000, \<lparr>world = two_by_two, state = (1, 0), score = -1000\<rparr>)"
    by (auto simp add: candidate_def)
  moreover
  from act_reward_position_score [OF r', of ACTION_DOWN] down
  have "act ?s ACTION_DOWN = Inr (-1, \<lparr>world = two_by_two, state = (0, 0), score = -1\<rparr>)"
    by (auto simp add: candidate_def)
  ultimately show ?thesis using r by simp
qed

section \<open>The position invariant\<close>

text \<open>
  C9. In a well-formed world (rectangular, the start inside the grid on a floor cell)
  the invariant "the position is inside the grid and not on a wall" holds for the new
  simulation and is kept by both operations: \<open>reset\<close> puts the player back on the
  start, and \<open>act\<close> returns, leaves the world alone, and either keeps the position
  or moves it to the candidate, which is then inside the grid and floor, trap or goal.
\<close>

theorem position_invariant:
  assumes "well_formed wd"
  shows "position_ok (Simulation wd)
    \<and> (\<forall>sim. world sim = wd \<and> position_ok sim \<longrightarrow>
          position_ok (reset sim) \<and> state (reset sim) = init_state wd \<and> world (reset sim) = wd
          \<and> (\<forall>a. \<exists>reward sim'. act sim a = Inr (reward, sim') \<and> world sim' = wd
                \<and> position_ok sim'
                \<and> (state sim' = state sim
                     \<or> state sim' = candidate sim a \<and> enterable wd (state sim'))))"
proof (intro conjI allI impI)
  show "position_ok (Simulation wd)" using assms by (rule position_ok_Simulation)
next
  fix sim assume "world sim = wd \<and> position_ok sim"
  then show "position_ok (reset sim)" using assms position_ok_reset by blast
next
  fix sim assume "world sim = wd \<and> position_ok sim"
  then show "state (reset sim) = init_state wd" by (simp add: reset_def)
next
  fix sim assume "world sim = wd \<and> position_ok sim"
  then show "world (reset sim) = wd" by (simp add: reset_def)
next
  fix sim a assume h: "world sim = wd \<and> position_ok sim"
  with assms have rect: "rectangular (world sim)" by (simp add: well_formed_def)
  from act_total [OF rect, of a] obtain reward sim' where
    step: "act sim a = Inr (reward, sim')" and same: "world sim' = world sim" and
    pos: "if enterable (world sim) (candidate sim a) then state sim' = candidate sim a
          else state sim' = state sim"
    by blast
  from rect h step have "position_ok sim'" using position_ok_act by blast
  with step same pos h
  show "\<exists>reward sim'. act sim a = Inr (reward, sim') \<and> world sim' = wd \<and> position_ok sim'
          \<and> (state sim' = state sim \<or> state sim' = candidate sim a \<and> enterable wd (state sim'))"
    by (cases "enterable (world sim) (candidate sim a)") auto
qed

theorem position_invariant_witness:
  "well_formed corridor \<and> position_ok (Simulation corridor)
   \<and> position_ok on_trap \<and> position_ok (reset on_trap)
   \<and> act on_trap ACTION_RIGHT = Inr (-1, \<lparr>world = corridor, state = (2, 0), score = -1001\<rparr>)
   \<and> position_ok \<lparr>world = corridor, state = (2, 0), score = -1001\<rparr>"
proof -
  have wf: "well_formed corridor"
    by (simp add: well_formed_def rectangular_def in_bounds_def cell_def corridor_def)
  have ok: "world on_trap = corridor \<and> position_ok on_trap"
    by (simp add: position_ok_def on_trap_def in_bounds_def cell_def corridor_def)
  have step: "act on_trap ACTION_RIGHT = Inr (-1, \<lparr>world = corridor, state = (2, 0), score = -1001\<rparr>)"
    by (simp add: act_def valid_move_def world_w_def world_h_def world_at_def getitem_def
        sim_x_def sim_y_def on_trap_def corridor_def)
  from position_invariant [OF wf] ok
  have "position_ok (Simulation corridor)" "position_ok (reset on_trap)"
    "\<exists>reward sim'. act on_trap ACTION_RIGHT = Inr (reward, sim') \<and> position_ok sim'"
    by blast+
  with wf ok step show ?thesis by auto
qed

section \<open>Terminal states\<close>

text \<open>
  C3. A world that \<open>parse\<close> returns is well formed, its start cell being rewritten to
  floor. In a well-formed world every sequence of \<open>reset\<close> and \<open>act\<close> calls ends in
  a state where \<open>in_terminal_state\<close> returns, and is true exactly when the cell of the
  position is a trap or the goal; after \<open>reset\<close> it is false.
\<close>

theorem in_terminal_state_trap_or_goal:
  "(parse s = Inr wd \<longrightarrow> well_formed wd)
   \<and> (well_formed wd \<longrightarrow>
        (\<forall>cs. \<exists>sim. run (Simulation wd) cs = Inr sim
           \<and> in_terminal_state sim = Inr (cell wd (state sim) \<in> {CHR ''^'', CHR ''$''})
           \<and> in_terminal_state (reset sim) = Inr False))"
proof (intro conjI allI impI)
  assume "parse s = Inr wd"
  then show "well_formed wd" by (rule parse_well_formed)
next
  fix cs assume wf: "well_formed wd"
  then have wf': "well_formed (world (Simulation wd))" by (simp add: Simulation_def reset_def)
  from wf have "position_ok (Simulation wd)" by (rule position_ok_Simulation)
  with run_position_ok [OF wf', of cs] obtain sim where
    run: "run (Simulation wd) cs = Inr sim" and same: "world sim = wd" and ok: "position_ok sim"
    by (auto simp add: Simulation_def reset_def)
  from wf same have rect: "rectangular (world sim)" by (simp add: well_formed_def)
  from ok have "in_bounds (world sim) (state sim)" by (simp add: position_ok_def)
  with rect have t: "in_terminal_state sim = Inr (cell wd (state sim) \<in> {CHR ''^'', CHR ''$''})"
    using in_terminal_state_in_bounds same by blast
  have rect': "rectangular (world (reset sim))" using rect by (simp add: reset_def)
  have "in_bounds (world (reset sim)) (state (reset sim))"
    using wf same by (simp add: reset_def well_formed_def)
  with rect' have "in_terminal_state (reset sim)
      = Inr (cell (world (reset sim)) (state (reset sim)) \<in> {CHR ''^'', CHR ''$''})"
    by (rule in_terminal_state_in_bounds)
  also have "cell (world (reset sim)) (state (reset sim)) = CHR ''.''"
    using wf same by (simp add: reset_def well_formed_def)
  finally have "in_terminal_state (reset sim) = Inr False" by simp
  with run t
  show "\<exists>sim. run (Simulation wd) cs = Inr sim
           \<and> in_terminal_state sim = Inr (cell wd (state sim) \<in> {CHR ''^'', CHR ''$''})
           \<and> in_terminal_state (reset sim) = Inr False"
    by blast
qed

theorem in_terminal_state_trap_or_goal_witness:
  "parse ''@^.'' = Inr corridor \<and> well_formed corridor
   \<and> run (Simulation corridor) [Act ACTION_RIGHT] = Inr on_trap
   \<and> in_terminal_state on_trap = Inr True
   \<and> in_terminal_state (Simulation corridor) = Inr False
   \<and> in_terminal_state (reset on_trap) = Inr False"
proof -
  note p = parse_corridor
  note t = in_terminal_state_trap_or_goal [of "''@^.''" corridor]
  from t p have wf: "well_formed corridor" by blast
  have r: "run (Simulation corridor) [Act ACTION_RIGHT] = Inr on_trap"
    by (simp add: act_def valid_move_def world_w_def world_h_def world_at_def getitem_def
        sim_x_def sim_y_def on_trap_def corridor_def Simulation_def reset_def)
  have r0: "run (Simulation corridor) [] = Inr (Simulation corridor)" by simp
  from t wf have a: "\<And>cs. \<exists>sim. run (Simulation corridor) cs = Inr sim
           \<and> in_terminal_state sim = Inr (cell corridor (state sim) \<in> {CHR ''^'', CHR ''$''})
           \<and> in_terminal_state (reset sim) = Inr False"
    by blast
  from a [of "[Act ACTION_RIGHT]"] r
  have 1: "in_terminal_state on_trap = Inr (cell corridor (state on_trap) \<in> {CHR ''^'', CHR ''$''})"
    "in_terminal_state (reset on_trap) = Inr False"
    by auto
  from a [of "[]"] r0
  have 2: "in_terminal_state (Simulation corridor)
     = Inr (cell corridor (state (Simulation corridor)) \<in> {CHR ''^'', CHR ''$''})"
    by auto
  have "cell corridor (state on_trap) = CHR ''^''"
    "cell corridor (state (Simulation corridor)) = CHR ''.''"
    by (simp_all add: cell_def on_trap_def corridor_def Simulation_def reset_def)
  with 1 2 p wf r show ?thesis by simp
qed

section \<open>Acting in a terminal state\<close>

text \<open>
  C4, as stated, fails: \<open>act\<close> does not look at \<open>in_terminal_state\<close>. In the world
  \<^verbatim>\<open>@^.\<close> the first step to the right enters the trap, a terminal state at \<open>(1, 0)\<close>;
  a second step to the right leaves it for \<open>(2, 0)\<close>.
\<close>

theorem act_in_terminal_state_counterexample:
  "parse ''@^.'' = Inr corridor
   \<and> act (Simulation corridor) ACTION_RIGHT = Inr (-1000, on_trap)
   \<and> in_terminal_state on_trap = Inr True
   \<and> state on_trap = (1, 0)
   \<and> act on_trap ACTION_RIGHT = Inr (-1, \<lparr>world = corridor, state = (2, 0), score = -1001\<rparr>)"
  by (simp add: parse_def str_split_def isspace_def VALID_CHARS_def
      act_def valid_move_def world_w_def world_h_def world_at_def getitem_def
      in_terminal_state_def sim_x_def sim_y_def on_trap_def corridor_def Simulation_def reset_def)

text \<open>
  C4, amended. In a terminal state \<open>act\<close> applies the same rule as anywhere else: it
  returns, and the position stays on the terminal cell exactly when the candidate cell
  is outside the grid or is not floor, trap or goal; otherwise the player moves to the
  candidate.
\<close>

theorem act_in_terminal_state:
  assumes "rectangular (world sim)" and "in_terminal_state sim = Inr True"
  shows "\<exists>reward sim'. act sim a = Inr (reward, sim')
     \<and> (state sim' = state sim) = (\<not> enterable (world sim) (candidate sim a))
     \<and> (state sim' = candidate sim a) = enterable (world sim) (candidate sim a)"
  using candidate_moves [of sim a]
  by (auto simp add: act_rectangular [OF assms(1)] Let_def)

theorem act_in_terminal_state_witness:
  "rectangular (world on_trap) \<and> in_terminal_state on_trap = Inr True
   \<and> enterable (world on_trap) (candidate on_trap ACTION_RIGHT)
   \<and> \<not> enterable (world on_trap) (candidate on_trap ACTION_UP)
   \<and> (\<exists>reward sim'. act on_trap ACTION_RIGHT = Inr (reward, sim') \<and> state sim' = (2, 0))
   \<and> (\<exists>reward sim'. act on_trap ACTION_UP = Inr (reward, sim') \<and> state sim' = (1, 0))"
proof -
  have r: "rectangular (world on_trap)"
    by (simp add: rectangular_def on_trap_def corridor_def)
  have t: "in_terminal_state on_trap = Inr True"
    by (simp add: in_terminal_state_def world_at_def getitem_def on_trap_def corridor_def)
  have e: "enterable (world on_trap) (candidate on_trap ACTION_RIGHT)"
    "\<not> enterable (world on_trap) (candidate on_trap ACTION_UP)"
    "candidate on_trap ACTION_RIGHT = (2, 0)" "state on_trap = (1, 0)"
    by (simp_all add: enterable_def in_bounds_def cell_def candidate_def on_trap_def corridor_def)
  from act_in_terminal_state [OF r t, of ACTION_RIGHT] act_in_terminal_state [OF r t, of ACTION_UP] e r t
  show ?thesis by auto
qed

section \<open>Reading the table\<close>

text \<open>
  C8. \<open>get\<close> returns the stored value if there is one and the default otherwise; it
  is a total function, so it never fails. The read may store the default under the key,
  but nothing a client can see changes: every later \<open>get\<close> and \<open>best\<close> returns
  what it would have returned without the read, and so does every later sequence of
  \<open>get\<close>, \<open>best\<close> and \<open>set\<close> calls.
\<close>

theorem get_reads_without_changing:
  "fst (get qt s a) = (case table qt (s, a) of Some v \<Rightarrow> v | None \<Rightarrow> init_reward qt)
   \<and> fst (get (snd (get qt s a)) s' a') = fst (get qt s' a')
   \<and> fst (best (snd (get qt s a)) s') = fst (best qt s')
   \<and> answers (snd (get qt s a)) cs = answers qt cs"
proof (intro conjI)
  show "fst (get qt s a) = (case table qt (s, a) of Some v \<Rightarrow> v | None \<Rightarrow> init_reward qt)"
    by (simp add: get_def split: option.split)
  show "fst (get (snd (get qt s a)) s' a') = fst (get qt s' a')"
    by (simp add: fst_get entry_get)
  show "fst (best (snd (get qt s a)) s') = fst (best qt s')"
    by (rule best_same_entries) (rule entry_get)
  show "answers (snd (get qt s a)) cs = answers qt cs"
    by (rule answers_same_entries) (rule entry_get)
qed

section \<open>The update of the learner\<close>



section \<open>The best action\<close>

text \<open>
  C6, as stated, fails for a default at or below the sentinel: on a new table with
  default \<open>- 10 ^ 20\<close> no value is greater than the initial \<open>best_value\<close>, and
  \<open>best\<close> returns \<open>None\<close> for the action.
\<close>

theorem best_empty_table_counterexample:
  "fst (best (QTable (- (10 ^ 20)) :: (int \<times> int) qtable) (0, 0)) = (None, - (10 ^ 20))"
  by (simp add: QTable_def get_def best_def ALL_ACTIONS_def)

text \<open>
  C6, amended. For a default greater than \<open>- 10 ^ 20\<close>, \<open>best\<close> on a state with no
  stored entry returns the first action, \<open>ACTION_UP\<close>, with the default. In general,
  when the greatest of the four values of the state is greater than \<open>- 10 ^ 20\<close>,
  \<open>best\<close> returns that value with the first action of \<open>ALL_ACTIONS\<close> that has it.
\<close>

theorem best_first_greatest:
  "(- (10 ^ 20) < init_reward qt \<and> (\<forall>a. table qt (s, a) = None)
      \<longrightarrow> fst (best qt s) = (Some ACTION_UP, init_reward qt))
   \<and> (- (10 ^ 20) < greatest qt s
      \<longrightarrow> fst (best qt s) = (find (\<lambda>a. fst (get qt s a) = greatest qt s) ALL_ACTIONS, greatest qt s))"
proof (intro conjI impI)
  assume h: "- (10 ^ 20) < init_reward qt \<and> (\<forall>a. table qt (s, a) = None)"
  then have "\<And>a. entry qt (s, a) = init_reward qt" by (simp add: entry_def)
  with h show "fst (best qt s) = (Some ACTION_UP, init_reward qt)"
    by (simp add: fst_best ALL_ACTIONS_def)
next
  assume "- (10 ^ 20) < greatest qt s"
  then have "\<exists>a. - (10 ^ 20) < entry qt (s, a)" by (rule greatest_gt_iff [THEN iffD1])
  then show "fst (best qt s)
      = (find (\<lambda>a. fst (get qt s a) = greatest qt s) ALL_ACTIONS, greatest qt s)"
    by (simp add: best_some fst_get)
qed

theorem best_first_greatest_witness:
  "- (10 ^ 20) < init_reward (QTable 3 :: (int \<times> int) qtable)
   \<and> (\<forall>a. table (QTable 3 :: (int \<times> int) qtable) ((0, 0), a) = None)
   \<and> fst (best (QTable 3 :: (int \<times> int) qtable) (0, 0)) = (Some ACTION_UP, 3)
   \<and> greatest tied (0, 0) = 5
   \<and> fst (best tied (0, 0)) = (Some ACTION_DOWN, 5)"
proof -
  let ?e = "QTable 3 :: (int \<times> int) qtable"
  have e: "- (10 ^ 20) < init_reward ?e \<and> (\<forall>a. table ?e ((0, 0), a) = None)"
    by (simp add: QTable_def)
  have g: "greatest tied (0, 0) = 5"
    by (simp add: greatest_def tied_def set_entry_def QTable_def get_def ALL_ACTIONS_def)
  have f: "find (\<lambda>a. fst (get tied (0, 0) a) = 5) ALL_ACTIONS = Some ACTION_DOWN"
    by (simp add: tied_def set_entry_def QTable_def get_def ALL_ACTIONS_def)
  from best_first_greatest [of ?e "(0, 0)"] e
  have 1: "fst (best ?e (0, 0)) = (Some ACTION_UP, 3)" by (simp add: QTable_def)
  from best_first_greatest [of tied "(0, 0)"] g f
  have 2: "fst (best tied (0, 0)) = (Some ACTION_DOWN, 5)" by simp
  from e g 1 2 show ?thesis by simp
qed

text \<open>
  C10. If every one of the four values of a state is at most \<open>- 10 ^ 20\<close> (as on a
  state with no entry when the default is at most \<open>- 10 ^ 20\<close>), \<open>best\<close> returns
  \<open>(None, - 10 ^ 20)\<close> and the greedy policy picks \<open>None\<close>. If the default and all
  stored values are greater than \<open>- 10 ^ 20\<close>, \<open>best\<close> returns one of the four
  actions, and the greedy policy picks it.
\<close>

theorem best_none_at_sentinel:
  "((\<forall>a. fst (get qt s a) \<le> - (10 ^ 20))
      \<longrightarrow> fst (best qt s) = (None, - (10 ^ 20)) \<and> fst (GreedyQ_pick_action qt s) = None)
   \<and> (init_reward qt \<le> - (10 ^ 20) \<and> (\<forall>a. table qt (s, a) = None)
      \<longrightarrow> fst (best qt s) = (None, - (10 ^ 20)))
   \<and> (- (10 ^ 20) < init_reward qt \<and> (\<forall>v\<in>ran (table qt). - (10 ^ 20) < v)
      \<longrightarrow> (\<exists>a\<in>set ALL_ACTIONS. fst (fst (best qt s)) = Some a
            \<and> fst (GreedyQ_pick_action qt s) = Some a))"
proof (intro conjI impI)
  have pick: "fst (GreedyQ_pick_action qt s) = fst (fst (best qt s))"
    by (simp add: GreedyQ_pick_action_def split: prod.split)
  {
    assume "\<forall>a. fst (get qt s a) \<le> - (10 ^ 20)"
    then have "\<forall>a. entry qt (s, a) \<le> - (10 ^ 20)" by (simp add: fst_get)
    then have b: "fst (best qt s) = (None, - (10 ^ 20))" by (rule best_none)
    then show "fst (best qt s) = (None, - (10 ^ 20))" .
    from b pick show "fst (GreedyQ_pick_action qt s) = None" by simp
  }
  {
    assume "init_reward qt \<le> - (10 ^ 20) \<and> (\<forall>a. table qt (s, a) = None)"
    then have "\<forall>a. entry qt (s, a) \<le> - (10 ^ 20)" by (simp add: entry_def)
    then show "fst (best qt s) = (None, - (10 ^ 20))" by (rule best_none)
  }
  {
    assume h: "- (10 ^ 20) < init_reward qt \<and> (\<forall>v\<in>ran (table qt). - (10 ^ 20) < v)"
    have "- (10 ^ 20) < entry qt (s, ACTION_UP)"
    proof (cases "table qt (s, ACTION_UP)")
      case None
      with h show ?thesis by (simp add: entry_def)
    next
      case (Some v)
      then have "v \<in> ran (table qt)" by (auto simp add: ran_def)
      with h Some show ?thesis by (simp add: entry_def)
    qed
    then have ex: "\<exists>a. - (10 ^ 20) < entry qt (s, a)" by blast
    then have b: "fst (best qt s)
        = (find (\<lambda>a. entry qt (s, a) = greatest qt s) ALL_ACTIONS, greatest qt s)"
      by (rule best_some)
    have "greatest qt s \<in> (\<lambda>a. entry qt (s, a)) ` set ALL_ACTIONS"
      unfolding greatest_entry by (rule Max_in) (simp_all add: ALL_ACTIONS_def)
    then obtain a0 where "a0 \<in> set ALL_ACTIONS" "entry qt (s, a0) = greatest qt s" by auto
    then have "find (\<lambda>a. entry qt (s, a) = greatest qt s) ALL_ACTIONS \<noteq> None"
      by (auto simp add: find_None_iff)
    then obtain a1 where f: "find (\<lambda>a. entry qt (s, a) = greatest qt s) ALL_ACTIONS = Some a1"
      by blast
    with b pick every_action [of a1]
    show "\<exists>a\<in>set ALL_ACTIONS. fst (fst (best qt s)) = Some a
            \<and> fst (GreedyQ_pick_action qt s) = Some a"
      by simp
  }
qed

theorem best_none_at_sentinel_witness:
  "(\<forall>a. fst (get (QTable (- (10 ^ 20)) :: (int \<times> int) qtable) (0, 0) a) \<le> - (10 ^ 20))
   \<and> fst (best (QTable (- (10 ^ 20)) :: (int \<times> int) qtable) (0, 0)) = (None, - (10 ^ 20))
   \<and> fst (GreedyQ_pick_action (QTable (- (10 ^ 20)) :: (int \<times> int) qtable) (0, 0)) = None
   \<and> - (10 ^ 20) < init_reward tied \<and> ran (table tied) = {5}
   \<and> fst (GreedyQ_pick_action tied (0, 0)) = Some ACTION_DOWN"
proof -
  let ?e = "QTable (- (10 ^ 20)) :: (int \<times> int) qtable"
  have e: "\<forall>a. fst (get ?e (0, 0) a) \<le> - (10 ^ 20)"
    "init_reward ?e \<le> - (10 ^ 20) \<and> (\<forall>a. table ?e ((0, 0), a) = None)"
    by (simp_all add: QTable_def get_def)
  have t: "- (10 ^ 20) < init_reward tied \<and> (\<forall>v\<in>ran (table tied). - (10 ^ 20) < v)"
    by (auto simp add: tied_def set_entry_def QTable_def ran_def)
  have d: "fst (GreedyQ_pick_action tied (0, 0)) = Some ACTION_DOWN"
    by (simp add: GreedyQ_pick_action_def best_def tied_def set_entry_def QTable_def get_def
        ALL_ACTIONS_def)
  from best_none_at_sentinel [of ?e "(0, 0)"] e
  have 1: "fst (best ?e (0, 0)) = (None, - (10 ^ 20))"
    "fst (GreedyQ_pick_action ?e (0, 0)) = None"
    by blast+
  have r: "ran (table tied) = {5}"
    by (auto simp add: tied_def set_entry_def QTable_def ran_def)
  from best_none_at_sentinel [of tied "(0, 0)"] t
  have "\<exists>a\<in>set ALL_ACTIONS. fst (GreedyQ_pick_action tied (0, 0)) = Some a" by blast
  with e t d 1 r show ?thesis by blast
qed

section \<open>The epsilon policy\<close>

text \<open>
  C7. For policies A and B and a sample of \<open>random\<close> in \<open>[0, 1)\<close>: with
  \<open>epsilon = 0\<close> the epsilon policy returns what policy A picks, and with
  \<open>epsilon = 1\<close> what policy B picks (each run on the state the draw left).
\<close>

theorem EpsilonPolicy_extremes:
  "0 \<le> fst (random w) \<and> fst (random w) < 1 \<longrightarrow>
     (epsilon p = 0 \<longrightarrow> EpsilonPolicy_pick_action random p s w = policy_a p s (snd (random w)))
     \<and> (epsilon p = 1 \<longrightarrow> EpsilonPolicy_pick_action random p s w = policy_b p s (snd (random w)))"
  by (simp add: EpsilonPolicy_pick_action_def split: prod.split)

theorem EpsilonPolicy_extremes_witness:
  "0 \<le> fst (half_sample 0) \<and> fst (half_sample 0) < 1
   \<and> EpsilonPolicy_pick_action half_sample
        \<lparr>policy_a = fixed_policy ACTION_UP, policy_b = fixed_policy ACTION_DOWN, epsilon = 0\<rparr>
        (0, 0) 0 = (ACTION_UP, 1)
   \<and> EpsilonPolicy_pick_action half_sample
        \<lparr>policy_a = fixed_policy ACTION_UP, policy_b = fixed_policy ACTION_DOWN, epsilon = 1\<rparr>
        (0, 0) 0 = (ACTION_DOWN, 1)"
proof -
  have h: "0 \<le> fst (half_sample 0) \<and> fst (half_sample 0) < 1"
    by (simp add: half_sample_def)
  from EpsilonPolicy_extremes [of half_sample 0
      "\<lparr>policy_a = fixed_policy ACTION_UP, policy_b = fixed_policy ACTION_DOWN, epsilon = 0\<rparr>" "(0, 0)"]
    EpsilonPolicy_extremes [of half_sample 0
      "\<lparr>policy_a = fixed_policy ACTION_UP, policy_b = fixed_policy ACTION_DOWN, epsilon = 1\<rparr>" "(0, 0)"]
    h
  show ?thesis by (simp add: half_sample_def fixed_policy_def)
qed

section \<open>Parsing\<close>

text \<open>
  C5. \<open>parse\<close> cuts the text with \<^verbatim>\<open>split()\<close>, at blanks as well as at line ends,
  so a blank is never a cell although \<open>VALID_CHARS\<close> holds it: the one-line map
  \<^verbatim>\<open>@ ##\<close> is read as two lines of different length and refused, and \<^verbatim>\<open>@ .\<close>
  becomes a world of two lines of one cell. A second start raises \<open>TypeError\<close>, not
  \<open>WorldFailure\<close>.
\<close>

theorem parse_blank_and_second_start:
  "parse ''@ ##'' = Inl (WorldFailure (DifferentLength 1 2 1))
   \<and> parse ''@ .'' = Inr \<lparr>init_state = (0, 0), lines = [''.'', ''.'']\<rparr>
   \<and> parse ''@@'' = Inl TypeError"
  by (simp add: parse_def str_split_def isspace_def VALID_CHARS_def)

end
